theory Spec2Isabelle
  imports Main
begin

section \<open>Text primitives of the parser\<close>

text \<open>
  The reply text is a Python \<open>str\<close>. It is modelled as a \<open>string\<close> whose characters
  are read as the code points 0..255; on that range the character classes below are the
  ones Python uses (\<open>str.isspace\<close>, which is also the regex class \<open>\s\<close> of a \<open>str\<close> pattern, and
  \<open>str.lower\<close>).
\<close>

definition is_space :: "char \<Rightarrow> bool" where
  "is_space c =
     (let n = (of_char c :: nat)
      in (9 \<le> n \<and> n \<le> 13) \<or> (28 \<le> n \<and> n \<le> 32) \<or> n = 133 \<or> n = 160)"

text \<open>The regex class \<open>[a-zA-Z]\<close> (compiled without \<open>re.IGNORECASE\<close>).\<close>

definition is_alpha :: "char \<Rightarrow> bool" where
  "is_alpha c =
     (let n = (of_char c :: nat)
      in (65 \<le> n \<and> n \<le> 90) \<or> (97 \<le> n \<and> n \<le> 122))"

definition is_upper :: "char \<Rightarrow> bool" where
  "is_upper c =
     (let n = (of_char c :: nat)
      in (65 \<le> n \<and> n \<le> 90) \<or> (192 \<le> n \<and> n \<le> 222 \<and> n \<noteq> 215))"

definition lower_char :: "char \<Rightarrow> char" where
  "lower_char c = (if is_upper c then char_of ((of_char c :: nat) + 32) else c)"

text \<open>\<open>s.lower()\<close>\<close>

definition lower :: "string \<Rightarrow> string" where
  "lower s = map lower_char s"

text \<open>\<open>s.strip()\<close>\<close>

definition lstrip :: "string \<Rightarrow> string" where
  "lstrip s = dropWhile is_space s"

definition rstrip :: "string \<Rightarrow> string" where
  "rstrip s = rev (dropWhile is_space (rev s))"

definition strip :: "string \<Rightarrow> string" where
  "strip s = rstrip (lstrip s)"

text \<open>\<open>s.startswith(p)\<close>, and the same under \<open>re.IGNORECASE\<close>.\<close>

fun starts_with :: "string \<Rightarrow> string \<Rightarrow> bool" where
  "starts_with [] s = True"
| "starts_with (p # ps) [] = False"
| "starts_with (p # ps) (c # cs) = (c = p \<and> starts_with ps cs)"

fun starts_with_ci :: "string \<Rightarrow> string \<Rightarrow> bool" where
  "starts_with_ci [] s = True"
| "starts_with_ci (p # ps) [] = False"
| "starts_with_ci (p # ps) (c # cs) = (lower_char c = lower_char p \<and> starts_with_ci ps cs)"

text \<open>\<open>sub in s\<close>\<close>

fun contains :: "string \<Rightarrow> string \<Rightarrow> bool" where
  "contains sub [] = starts_with sub []"
| "contains sub (c # cs) = (starts_with sub (c # cs) \<or> contains sub cs)"

section \<open>The regular expressions, as backtracking matchers\<close>

text \<open>
  Each matcher takes the continuation \<open>k\<close> that matches the rest of the pattern and the
  text still to be read. It tries its alternatives in the order of Python's \<open>re\<close> and
  returns the first one on which the continuation succeeds.
\<close>

text \<open>A literal, and a literal under \<open>re.IGNORECASE\<close>.\<close>

fun lit :: "string \<Rightarrow> (string \<Rightarrow> 'a option) \<Rightarrow> string \<Rightarrow> 'a option" where
  "lit [] k s = k s"
| "lit (p # ps) k [] = None"
| "lit (p # ps) k (c # cs) = (if c = p then lit ps k cs else None)"

fun lit_ci :: "string \<Rightarrow> (string \<Rightarrow> 'a option) \<Rightarrow> string \<Rightarrow> 'a option" where
  "lit_ci [] k s = k s"
| "lit_ci (p # ps) k [] = None"
| "lit_ci (p # ps) k (c # cs) =
     (if lower_char c = lower_char p then lit_ci ps k cs else None)"

text \<open>\<open>C*\<close> for a character class \<open>C\<close>, greedy: the longest run first.\<close>

fun star_greedy :: "(char \<Rightarrow> bool) \<Rightarrow> (string \<Rightarrow> 'a option) \<Rightarrow> string \<Rightarrow> 'a option" where
  "star_greedy P k [] = k []"
| "star_greedy P k (c # cs) =
     (if P c
      then (case star_greedy P k cs of Some m \<Rightarrow> Some m | None \<Rightarrow> k (c # cs))
      else k (c # cs))"

text \<open>
  The capturing groups \<open>(.*?)\<close> and \<open>(.*)\<close> under \<open>re.DOTALL\<close>: \<open>g\<close> is the text captured so
  far. The lazy one tries the shortest capture first, the greedy one the longest.
\<close>

fun any_lazy :: "(string \<Rightarrow> string \<Rightarrow> 'a option) \<Rightarrow> string \<Rightarrow> string \<Rightarrow> 'a option" where
  "any_lazy k g [] = k g []"
| "any_lazy k g (c # cs) =
     (case k g (c # cs) of Some m \<Rightarrow> Some m | None \<Rightarrow> any_lazy k (g @ [c]) cs)"

fun any_greedy :: "(string \<Rightarrow> string \<Rightarrow> 'a option) \<Rightarrow> string \<Rightarrow> string \<Rightarrow> 'a option" where
  "any_greedy k g [] = k g []"
| "any_greedy k g (c # cs) =
     (case any_greedy k (g @ [c]) cs of Some m \<Rightarrow> Some m | None \<Rightarrow> k g (c # cs))"

text \<open>\<open>(?:r)?\<close>, greedy: first with \<open>r\<close>, then without.\<close>

definition opt_greedy ::
  "((string \<Rightarrow> 'a option) \<Rightarrow> string \<Rightarrow> 'a option) \<Rightarrow> (string \<Rightarrow> 'a option) \<Rightarrow> string \<Rightarrow> 'a option" where
  "opt_greedy r k s = (case r k s of Some m \<Rightarrow> Some m | None \<Rightarrow> k s)"

text \<open>The lookahead \<open>(?=## Corrected Code|## Suggestions|\Z)\<close> under \<open>re.IGNORECASE\<close>.\<close>

definition next_heading :: "string \<Rightarrow> bool" where
  "next_heading s =
     (starts_with_ci ''## Corrected Code'' s \<or> starts_with_ci ''## Suggestions'' s \<or> s = [])"

definition look_ahead :: "(string \<Rightarrow> bool) \<Rightarrow> (string \<Rightarrow> 'a option) \<Rightarrow> string \<Rightarrow> 'a option" where
  "look_ahead P k s = (if P s then k s else None)"

text \<open>
  A match at one position yields the text of group 1 (\<open>None\<close> when the pattern has no
  group) and the text left after the match.
\<close>

type_synonym match_at = "string \<Rightarrow> (string option \<times> string) option"

definition accept :: "string option \<Rightarrow> string \<Rightarrow> (string option \<times> string) option" where
  "accept g s = Some (g, s)"

text \<open>\<open>r"## Error Details\s*(.*?)\s*(?=## Corrected Code|## Suggestions|\Z)"\<close>,
  \<open>re.DOTALL | re.IGNORECASE\<close>\<close>

definition error_re :: match_at where
  "error_re =
     lit_ci ''## Error Details''
       (star_greedy is_space
         (any_lazy (\<lambda>g. star_greedy is_space (look_ahead next_heading (accept (Some g)))) []))"

text \<open>\<open>r"## Corrected Code\s*"\<close>, \<open>re.IGNORECASE\<close>\<close>

definition corrected_code_heading_re :: match_at where
  "corrected_code_heading_re =
     lit_ci ''## Corrected Code'' (star_greedy is_space (accept None))"

text \<open>\<open>r"```(?:[a-zA-Z]*\n)?(.*?)\n```"\<close>, \<open>re.DOTALL\<close>\<close>

definition code_block_re :: match_at where
  "code_block_re =
     lit ''```''
       (opt_greedy (\<lambda>k. star_greedy is_alpha (lit ''\<newline>'' k))
         (any_lazy (\<lambda>g. lit ''\<newline>```'' (accept (Some g))) []))"

text \<open>\<open>r"## Suggestions\s*(.*)"\<close>, \<open>re.DOTALL | re.IGNORECASE\<close>\<close>

definition suggestions_re :: match_at where
  "suggestions_re =
     lit_ci ''## Suggestions''
       (star_greedy is_space (any_greedy (\<lambda>g. accept (Some g)) []))"

text \<open>
  \<open>re.search\<close>: the match at the leftmost position that has one, the end of the text
  included. The match object keeps group 1 and the offset \<open>end()\<close>.
\<close>

fun scan :: "match_at \<Rightarrow> string \<Rightarrow> (string option \<times> string) option" where
  "scan re [] = re []"
| "scan re (c # cs) = (case re (c # cs) of Some m \<Rightarrow> Some m | None \<Rightarrow> scan re cs)"

record re_match =
  m_group1 :: "string option"
  m_end :: nat

definition re_search :: "match_at \<Rightarrow> string \<Rightarrow> re_match option" where
  "re_search re text =
     (case scan re text of
        None \<Rightarrow> None
      | Some (g, rest) \<Rightarrow> Some \<lparr>m_group1 = g, m_end = length text - length rest\<rparr>)"

section \<open>parse_ai_response\<close>

record sections =
  error_details :: "string option"
  corrected_code :: "string option"
  suggestions :: "string option"

text \<open>Calling \<open>.strip()\<close> on a group that did not take part in the match raises.\<close>

datatype py_error = AttributeError

definition group1_strip :: "re_match \<Rightarrow> py_error + string" where
  "group1_strip m = (case m_group1 m of None \<Rightarrow> Inl AttributeError | Some g \<Rightarrow> Inr (strip g))"

definition error_details_sentinel :: string where
  "error_details_sentinel = ''[Parsing Error: Could not isolate Error Details section]''"

definition no_code_block_sentinel :: string where
  "no_code_block_sentinel =
     ''[Parsing Error: Found 'Corrected Code' heading but no valid code block immediately after it]''"

definition no_code_heading_sentinel :: string where
  "no_code_heading_sentinel = ''[Parsing Error: Could not find '## Corrected Code' heading]''"

definition no_suggestions_placeholder :: string where
  "no_suggestions_placeholder = ''[No specific suggestions provided.]''"

definition suggestions_sentinel :: string where
  "suggestions_sentinel = ''[Parsing Error: Could not isolate Suggestions section]''"

text \<open>
  The three extraction blocks of the function, each taking and returning the dictionary
  \<open>sections\<close> and the flag \<open>parsing_successful\<close>.
\<close>

definition extract_error_details ::
  "string \<Rightarrow> sections \<times> bool \<Rightarrow> py_error + sections \<times> bool" where
  "extract_error_details response_text st =
     (case st of (secs, parsing_successful) \<Rightarrow>
        (case re_search error_re response_text of
           Some error_match \<Rightarrow>
             (case group1_strip error_match of
                Inl e \<Rightarrow> Inl e
              | Inr v \<Rightarrow> Inr (secs\<lparr>error_details := Some v\<rparr>, parsing_successful))
         | None \<Rightarrow>
             Inr (if contains ''error details'' (lower response_text)
                  then secs\<lparr>error_details := Some error_details_sentinel\<rparr>
                  else secs,
                  False)))"

definition extract_corrected_code ::
  "string \<Rightarrow> sections \<times> bool \<Rightarrow> py_error + sections \<times> bool" where
  "extract_corrected_code response_text st =
     (case st of (secs, parsing_successful) \<Rightarrow>
        (case re_search corrected_code_heading_re response_text of
           Some corrected_code_heading_match \<Rightarrow>
             (let search_start_index = m_end corrected_code_heading_match
              in case re_search code_block_re (drop search_start_index response_text) of
                   Some code_block_match \<Rightarrow>
                     (case group1_strip code_block_match of
                        Inl e \<Rightarrow> Inl e
                      | Inr v \<Rightarrow> Inr (secs\<lparr>corrected_code := Some v\<rparr>, parsing_successful))
                 | None \<Rightarrow>
                     Inr (if contains ''corrected code'' (lower response_text)
                          then secs\<lparr>corrected_code := Some no_code_block_sentinel\<rparr>
                          else secs,
                          False))
         | None \<Rightarrow>
             Inr (if contains ''corrected code'' (lower response_text)
                  then secs\<lparr>corrected_code := Some no_code_heading_sentinel\<rparr>
                  else secs,
                  False)))"

definition extract_suggestions ::
  "string \<Rightarrow> sections \<times> bool \<Rightarrow> py_error + sections \<times> bool" where
  "extract_suggestions response_text st =
     (case st of (secs, parsing_successful) \<Rightarrow>
        (case re_search suggestions_re response_text of
           Some suggestions_match \<Rightarrow>
             (case group1_strip suggestions_match of
                Inl e \<Rightarrow> Inl e
              | Inr v \<Rightarrow>
                  Inr (secs\<lparr>suggestions :=
                         Some (if v = [] then no_suggestions_placeholder else v)\<rparr>,
                       parsing_successful))
         | None \<Rightarrow>
             Inr (if contains ''suggestions'' (lower response_text)
                  then secs\<lparr>suggestions := Some suggestions_sentinel\<rparr>
                  else secs,
                  parsing_successful)))"

text \<open>Python's truth value of an optional string: \<open>None\<close> and \<open>""\<close> are false.\<close>

definition truthy :: "string option \<Rightarrow> bool" where
  "truthy v = (case v of None \<Rightarrow> False | Some s \<Rightarrow> s \<noteq> [])"

text \<open>The two checks at the end of the function.\<close>

definition final_checks :: "string \<Rightarrow> sections \<times> bool \<Rightarrow> sections \<times> bool" where
  "final_checks response_text st =
     (case st of (secs, parsing_successful) \<Rightarrow>
        (let ok1 =
               (if (error_details secs = None \<or> corrected_code secs = None)
                   \<and> (contains ''error details'' (lower response_text)
                        \<or> contains ''corrected code'' (lower response_text))
                then False else parsing_successful);
             ok2 =
               (if response_text \<noteq> [] \<and> \<not> truthy (error_details secs)
                   \<and> \<not> truthy (corrected_code secs) \<and> \<not> truthy (suggestions secs)
                then False else ok1)
         in (secs, ok2)))"

definition init_sections :: sections where
  "init_sections = \<lparr>error_details = None, corrected_code = None, suggestions = None\<rparr>"

definition parse_ai_response :: "string \<Rightarrow> py_error + sections \<times> bool" where
  "parse_ai_response response_text =
     (case extract_error_details response_text (init_sections, True) of
        Inl e \<Rightarrow> Inl e
      | Inr st1 \<Rightarrow>
          (case extract_corrected_code response_text st1 of
             Inl e \<Rightarrow> Inl e
           | Inr st2 \<Rightarrow>
               (case extract_suggestions response_text st2 of
                  Inl e \<Rightarrow> Inl e
                | Inr st3 \<Rightarrow> Inr (final_checks response_text st3))))"

text \<open>
  The two mandatory sections count as located on the branches of the function that store
  extracted text: for Error Details the search for its pattern succeeds; for Corrected Code
  the heading is found and a fenced block is found in the text after the heading.
\<close>

definition error_details_located :: "string \<Rightarrow> bool" where
  "error_details_located response_text = (re_search error_re response_text \<noteq> None)"

definition corrected_code_located :: "string \<Rightarrow> bool" where
  "corrected_code_located response_text =
     (case re_search corrected_code_heading_re response_text of
        None \<Rightarrow> False
      | Some m \<Rightarrow> re_search code_block_re (drop (m_end m) response_text) \<noteq> None)"

section \<open>Facts about the matchers\<close>

lemma lit_conv: "lit p k s = (if starts_with p s then k (drop (length p) s) else None)"
  by (induction p k s rule: lit.induct) auto

lemma lit_ci_conv: "lit_ci p k s = (if starts_with_ci p s then k (drop (length p) s) else None)"
  by (induction p k s rule: lit_ci.induct) auto

lemma scan_hit: "re s = Some m \<Longrightarrow> scan re s = Some m"
  by (cases s) auto

lemma scan_skip:
  "(\<forall>i<length pre. re (drop i (pre @ s)) = None) \<Longrightarrow> scan re (pre @ s) = scan re s"
proof (induction pre)
  case Nil
  then show ?case by simp
next
  case (Cons c pre)
  from Cons.prems have h0: "re (c # pre @ s) = None" by force
  have "\<forall>i<length pre. re (drop i (pre @ s)) = None"
  proof (intro allI impI)
    fix i assume "i < length pre"
    then have "Suc i < length (c # pre)" by simp
    with Cons.prems have "re (drop (Suc i) ((c # pre) @ s)) = None" by blast
    then show "re (drop i (pre @ s)) = None" by simp
  qed
  with Cons.IH h0 show ?case by simp
qed

lemma scan_None:
  "(\<forall>i\<le>length s. re (drop i s) = None) \<Longrightarrow> scan re s = None"
proof (induction s)
  case Nil
  then show ?case by simp
next
  case (Cons c s)
  from Cons.prems have h0: "re (c # s) = None" by force
  have "\<forall>i\<le>length s. re (drop i s) = None"
  proof (intro allI impI)
    fix i assume "i \<le> length s"
    then have "Suc i \<le> length (c # s)" by simp
    with Cons.prems have "re (drop (Suc i) (c # s)) = None" by blast
    then show "re (drop i s) = None" by simp
  qed
  with Cons.IH h0 show ?case by simp
qed

lemma scan_Some_D: "scan re s = Some m \<Longrightarrow> \<exists>i\<le>length s. re (drop i s) = Some m"
proof (induction s)
  case Nil
  then show ?case by simp
next
  case (Cons c s)
  show ?case
  proof (cases "re (c # s)")
    case None
    with Cons.prems have "scan re s = Some m" by simp
    with Cons.IH obtain i where "i \<le> length s" "re (drop i s) = Some m" by blast
    then have "Suc i \<le> length (c # s) \<and> re (drop (Suc i) (c # s)) = Some m" by simp
    then show ?thesis by blast
  next
    case (Some a)
    with Cons.prems have "re (drop 0 (c # s)) = Some m" by simp
    then show ?thesis by blast
  qed
qed

lemma star_greedy_run:
  "list_all P ws \<Longrightarrow> r = [] \<or> \<not> P (hd r) \<Longrightarrow> k r = Some m \<Longrightarrow> star_greedy P k (ws @ r) = Some m"
  by (induction ws) (cases r; auto)+

lemma star_greedy_None:
  "(\<forall>i\<le>length (takeWhile P s). k (drop i s) = None) \<Longrightarrow> star_greedy P k s = None"
proof (induction s)
  case Nil
  then show ?case by simp
next
  case (Cons c s)
  from Cons.prems have h0: "k (c # s) = None" by force
  show ?case
  proof (cases "P c")
    case True
    have "\<forall>i\<le>length (takeWhile P s). k (drop i s) = None"
    proof (intro allI impI)
      fix i assume "i \<le> length (takeWhile P s)"
      with True have "Suc i \<le> length (takeWhile P (c # s))" by simp
      with Cons.prems have "k (drop (Suc i) (c # s)) = None" by blast
      then show "k (drop i s) = None" by simp
    qed
    with Cons.IH h0 True show ?thesis by simp
  next
    case False
    with h0 show ?thesis by simp
  qed
qed

lemma star_greedy_Some_D:
  "star_greedy P k s = Some m \<Longrightarrow> \<exists>i\<le>length s. k (drop i s) = Some m"
proof (induction s)
  case Nil
  then show ?case by simp
next
  case (Cons c s)
  show ?case
  proof (cases "P c \<and> star_greedy P k s \<noteq> None")
    case True
    with Cons.prems have "star_greedy P k s = Some m" by auto
    with Cons.IH obtain i where "i \<le> length s" "k (drop i s) = Some m" by blast
    then have "Suc i \<le> length (c # s) \<and> k (drop (Suc i) (c # s)) = Some m" by simp
    then show ?thesis by blast
  next
    case False
    with Cons.prems have "k (drop 0 (c # s)) = Some m" by (auto split: if_splits)
    then show ?thesis by blast
  qed
qed

lemma star_greedy_accept:
  "star_greedy P (accept g) s = Some (g, dropWhile P s)"
  by (induction s) (auto simp: accept_def)

lemma any_lazy_first:
  "(\<forall>i<length x. k (g @ take i x) (drop i x @ r) = None) \<Longrightarrow> k (g @ x) r = Some m
   \<Longrightarrow> any_lazy k g (x @ r) = Some m"
proof (induction x arbitrary: g)
  case Nil
  then show ?case by (cases r) auto
next
  case (Cons c x)
  from Cons.prems(1) have h0: "k g (c # x @ r) = None" by force
  have "\<forall>i<length x. k ((g @ [c]) @ take i x) (drop i x @ r) = None"
  proof (intro allI impI)
    fix i assume "i < length x"
    then have "Suc i < length (c # x)" by simp
    with Cons.prems(1) have "k (g @ take (Suc i) (c # x)) (drop (Suc i) (c # x) @ r) = None" by blast
    then show "k ((g @ [c]) @ take i x) (drop i x @ r) = None" by simp
  qed
  moreover from Cons.prems(2) have "k ((g @ [c]) @ x) r = Some m" by simp
  ultimately have "any_lazy k (g @ [c]) (x @ r) = Some m" by (rule Cons.IH)
  with h0 show ?case by simp
qed

lemma any_lazy_Some_D:
  "any_lazy k g s = Some m \<Longrightarrow> \<exists>i\<le>length s. k (g @ take i s) (drop i s) = Some m"
proof (induction s arbitrary: g)
  case Nil
  then show ?case by simp
next
  case (Cons c s)
  show ?case
  proof (cases "k g (c # s)")
    case None
    with Cons.prems have "any_lazy k (g @ [c]) s = Some m" by simp
    with Cons.IH obtain i where "i \<le> length s" "k ((g @ [c]) @ take i s) (drop i s) = Some m" by blast
    then have "Suc i \<le> length (c # s) \<and> k (g @ take (Suc i) (c # s)) (drop (Suc i) (c # s)) = Some m" by simp
    then show ?thesis by blast
  next
    case (Some a)
    with Cons.prems have "k (g @ take 0 (c # s)) (drop 0 (c # s)) = Some m" by simp
    then show ?thesis by blast
  qed
qed

lemma any_lazy_last:
  "k (g @ s) [] \<noteq> None \<Longrightarrow> any_lazy k g s \<noteq> None"
  by (induction s arbitrary: g) (auto split: option.splits)

lemma any_greedy_accept:
  "any_greedy (\<lambda>g. accept (Some g)) g s = Some (Some (g @ s), [])"
  by (induction s arbitrary: g) (auto simp: accept_def)

lemma starts_with_iff: "starts_with p s \<longleftrightarrow> length p \<le> length s \<and> take (length p) s = p"
  by (induction p s rule: starts_with.induct) auto

lemma starts_with_append: "starts_with p (p @ s)"
  by (simp add: starts_with_iff)

lemma starts_with_ci_lower: "starts_with_ci p s = starts_with (lower p) (lower s)"
  by (induction p s rule: starts_with_ci.induct) (auto simp: lower_def)

lemma contains_iff: "contains sub s \<longleftrightarrow> (\<exists>i\<le>length s. starts_with sub (drop i s))"
proof (induction s)
  case Nil
  then show ?case by simp
next
  case (Cons c s)
  show ?case
  proof
    assume "contains sub (c # s)"
    then consider "starts_with sub (c # s)" | "contains sub s" by auto
    then show "\<exists>i\<le>length (c # s). starts_with sub (drop i (c # s))"
    proof cases
      case 1
      then have "starts_with sub (drop 0 (c # s))" by simp
      then show ?thesis by blast
    next
      case 2
      with Cons.IH obtain i where "i \<le> length s" "starts_with sub (drop i s)" by blast
      then have "Suc i \<le> length (c # s) \<and> starts_with sub (drop (Suc i) (c # s))" by simp
      then show ?thesis by blast
    qed
  next
    assume "\<exists>i\<le>length (c # s). starts_with sub (drop i (c # s))"
    then obtain i where i: "i \<le> length (c # s)" "starts_with sub (drop i (c # s))" by blast
    show "contains sub (c # s)"
    proof (cases i)
      case 0
      with i show ?thesis by simp
    next
      case (Suc j)
      with i have "j \<le> length s \<and> starts_with sub (drop j s)" by simp
      with Cons.IH have "contains sub s" by blast
      then show ?thesis by simp
    qed
  qed
qed

lemma no_start_before:
  assumes no: "\<not> contains f (A @ butlast F)"
    and len: "length F = length f" and ne: "F \<noteq> []" and i: "i < length A"
  shows "\<not> starts_with f (drop i (A @ F @ B))"
proof
  assume sw: "starts_with f (drop i (A @ F @ B))"
  let ?A' = "A @ butlast F"
  have split: "A @ F @ B = ?A' @ (last F # B)" using ne by simp
  have bound: "i + length f \<le> length ?A'" using i len ne by (cases F rule: rev_cases) auto
  from sw have "take (length f) (drop i (A @ F @ B)) = f" by (simp add: starts_with_iff)
  then have "take (length f) (drop i (?A' @ (last F # B))) = f" using split by simp
  moreover have "take (length f) (drop i (?A' @ (last F # B))) = take (length f) (drop i ?A')"
    using bound by simp
  ultimately have "take (length f) (drop i ?A') = f" by simp
  moreover have "length f \<le> length (drop i ?A')" using bound by simp
  ultimately have "starts_with f (drop i ?A')" by (simp add: starts_with_iff)
  moreover have "i \<le> length ?A'" using bound by simp
  ultimately have "contains f ?A'" unfolding contains_iff by blast
  with no show False by contradiction
qed

lemma lower_append: "lower (a @ b) = lower a @ lower b"
  by (simp add: lower_def)

lemma lower_drop: "lower (drop i s) = drop i (lower s)"
  by (simp add: lower_def drop_map)

lemma lower_butlast: "lower (butlast s) = butlast (lower s)"
  by (simp add: lower_def map_butlast)

lemma length_lower: "length (lower s) = length s"
  by (simp add: lower_def)

lemma no_start_ci_before:
  assumes no: "\<not> contains (lower h) (lower (A @ butlast H))"
    and len: "lower H = lower h" and ne: "h \<noteq> []" and i: "i < length A"
  shows "\<not> starts_with_ci h (drop i (A @ H @ B))"
proof -
  have l: "length (lower H) = length (lower h)" using len by simp
  have n: "lower H \<noteq> []" using len ne by (simp add: lower_def)
  have "\<not> contains (lower h) (lower A @ butlast (lower H))"
    using no by (simp add: lower_append lower_butlast)
  moreover have "i < length (lower A)" using i by (simp add: length_lower)
  ultimately have "\<not> starts_with (lower h) (drop i (lower A @ lower H @ lower B))"
    using l n by (intro no_start_before)
  moreover have "starts_with_ci h (drop i (A @ H @ B))
      = starts_with (lower h) (drop i (lower A @ lower H @ lower B))"
    by (simp only: starts_with_ci_lower lower_drop lower_append)
  ultimately show ?thesis by blast
qed

lemma not_contains_no_start:
  "\<not> contains f s \<Longrightarrow> i \<le> length s \<Longrightarrow> \<not> starts_with f (drop i s)"
  unfolding contains_iff by blast

lemma not_contains_no_start_ci:
  "\<not> contains (lower h) (lower s) \<Longrightarrow> i \<le> length s \<Longrightarrow> \<not> starts_with_ci h (drop i s)"
  by (simp add: starts_with_ci_lower lower_drop contains_iff length_lower)

lemma starts_with_ci_variant: "lower H = lower h \<Longrightarrow> starts_with_ci h (H @ s)"
  by (simp add: starts_with_ci_lower lower_append starts_with_append)

lemma lower_eq_length: "lower H = lower h \<Longrightarrow> length H = length h"
  by (metis length_lower)

subsection \<open>Characters\<close>

lemma space_lower: "is_space c \<Longrightarrow> lower_char c = c"
  by (auto simp: is_space_def lower_char_def is_upper_def Let_def)

lemma space_not_alpha: "is_space c \<Longrightarrow> \<not> is_alpha c"
  by (auto simp: is_space_def is_alpha_def Let_def)

lemma hash_not_space: "\<not> is_space CHR ''#''"
  by (simp add: is_space_def)

lemma tick_not_space: "\<not> is_space CHR 0x60"
  by (simp add: is_space_def)

lemma nl_not_alpha: "\<not> is_alpha CHR ''\<newline>''"
  by (simp add: is_alpha_def)

lemma lower_hash: "lower_char CHR ''#'' = CHR ''#''"
  by (simp add: lower_char_def is_upper_def)

lemma starts_hash_not_space:
  "starts_with_ci (CHR ''#'' # h) s \<Longrightarrow> s \<noteq> [] \<and> \<not> is_space (hd s)"
proof (cases s)
  case Nil
  assume "starts_with_ci (CHR ''#'' # h) s"
  with Nil show ?thesis by simp
next
  case (Cons c cs)
  assume "starts_with_ci (CHR ''#'' # h) s"
  with Cons have l: "lower_char c = CHR ''#''" by (simp add: lower_hash)
  have "\<not> is_space c"
  proof
    assume sp: "is_space c"
    then have "lower_char c = c" by (rule space_lower)
    with l sp show False by (simp add: hash_not_space)
  qed
  with Cons show ?thesis by simp
qed

subsection \<open>Stripping\<close>

lemma strip_decomp:
  "\<exists>a b. s = a @ strip s @ b \<and> list_all is_space a \<and> list_all is_space b
      \<and> (strip s = [] \<or> (\<not> is_space (hd (strip s)) \<and> \<not> is_space (last (strip s))))
      \<and> (strip s = [] \<longrightarrow> b = [])"
proof -
  let ?a = "takeWhile is_space s"
  let ?m = "dropWhile is_space s"
  let ?b = "rev (takeWhile is_space (rev ?m))"
  have 1: "s = ?a @ ?m" by simp
  have "rev (dropWhile is_space (rev ?m)) @ rev (takeWhile is_space (rev ?m)) = rev (rev ?m)"
    by (metis rev_append takeWhile_dropWhile_id)
  then have 2: "?m = strip s @ ?b" by (simp add: strip_def rstrip_def lstrip_def)
  have 3: "list_all is_space ?a" by (simp add: list_all_iff) (meson set_takeWhileD)
  have 4: "list_all is_space ?b" by (simp add: list_all_iff) (meson set_takeWhileD)
  have 5: "strip s = [] \<or> (\<not> is_space (hd (strip s)) \<and> \<not> is_space (last (strip s)))"
  proof (cases "strip s = []")
    case True
    then show ?thesis by simp
  next
    case False
    then have ne: "dropWhile is_space (rev ?m) \<noteq> []" by (simp add: strip_def rstrip_def lstrip_def)
    then have "\<not> is_space (hd (dropWhile is_space (rev ?m)))" by (rule hd_dropWhile)
    then have l: "\<not> is_space (last (strip s))"
      using ne by (simp add: strip_def rstrip_def lstrip_def last_rev)
    have "?m \<noteq> []" using 2 False by (metis append_is_Nil_conv)
    then have "\<not> is_space (hd ?m)" by (rule hd_dropWhile)
    moreover have "hd ?m = hd (strip s)" using 2 False by (metis hd_append2)
    ultimately show ?thesis using l by simp
  qed
  have 6: "strip s = [] \<longrightarrow> ?b = []"
  proof
    assume e: "strip s = []"
    show "?b = []"
    proof (cases "?m = []")
      case True
      then show ?thesis by (metis rev.simps(1) takeWhile.simps(1))
    next
      case False
      then have "\<not> is_space (hd ?m)" by (rule hd_dropWhile)
      moreover from 2 e have "?m = ?b" by simp
      ultimately have "\<not> is_space (hd ?b)" by simp
      moreover from False \<open>?m = ?b\<close> have "?b \<noteq> []" by simp
      ultimately show ?thesis using 4 by (cases ?b) auto
    qed
  qed
  from 1 2 have "s = ?a @ strip s @ ?b" by simp
  with 3 4 5 6 show ?thesis by blast
qed

lemma strip_clean:
  "s = [] \<or> (\<not> is_space (hd s) \<and> \<not> is_space (last s)) \<Longrightarrow> strip s = s"
proof (cases s)
  case Nil
  then show ?thesis by (simp add: strip_def rstrip_def lstrip_def)
next
  case (Cons c cs)
  assume "s = [] \<or> (\<not> is_space (hd s) \<and> \<not> is_space (last s))"
  with Cons have h: "\<not> is_space c" and l: "\<not> is_space (last s)" by auto
  from h Cons have 1: "lstrip s = s" by (simp add: lstrip_def)
  from Cons have "rev s \<noteq> []" by simp
  moreover from l have "\<not> is_space (hd (rev s))" by (simp add: hd_rev)
  ultimately have "dropWhile is_space (rev s) = rev s" by (cases "rev s") auto
  then have "rstrip s = s" by (simp add: rstrip_def)
  with 1 show ?thesis by (simp add: strip_def)
qed

lemma strip_strip: "strip (strip s) = strip s"
  using strip_decomp [of s] strip_clean [of "strip s"] by blast

lemma strip_lstrip: "strip (lstrip s) = strip s"
  by (simp add: strip_def lstrip_def)

lemma strip_dropWhile: "strip (dropWhile is_space s) = strip s"
  by (simp add: strip_def lstrip_def)

subsection \<open>Searching for a pattern that starts with a literal\<close>

lemma scan_lit_ci:
  assumes H: "lower H = lower h" and ne: "h \<noteq> []"
    and no: "\<not> contains (lower h) (lower (pre @ butlast H))"
    and k: "k post = Some m"
  shows "scan (lit_ci h k) (pre @ H @ post) = Some m"
proof -
  have "\<forall>i<length pre. lit_ci h k (drop i (pre @ H @ post)) = None"
    using no_start_ci_before [OF no H ne] by (simp add: lit_ci_conv)
  then have "scan (lit_ci h k) (pre @ H @ post) = scan (lit_ci h k) (H @ post)"
    by (rule scan_skip)
  moreover have "lit_ci h k (H @ post) = Some m"
    using starts_with_ci_variant [OF H] lower_eq_length [OF H] k by (simp add: lit_ci_conv)
  ultimately show ?thesis by (simp add: scan_hit)
qed

lemma scan_lit:
  assumes ne: "f \<noteq> []" and no: "\<not> contains f (pre @ butlast f)" and k: "k post = Some m"
  shows "scan (lit f k) (pre @ f @ post) = Some m"
proof -
  have "\<forall>i<length pre. lit f k (drop i (pre @ f @ post)) = None"
    using no_start_before [OF no refl ne] by (simp add: lit_conv)
  then have "scan (lit f k) (pre @ f @ post) = scan (lit f k) (f @ post)"
    by (rule scan_skip)
  moreover have "lit f k (f @ post) = Some m"
    using k by (simp add: lit_conv starts_with_append)
  ultimately show ?thesis by (simp add: scan_hit)
qed

lemma scan_lit_ci_None:
  "\<not> contains (lower h) (lower s) \<Longrightarrow> scan (lit_ci h k) s = None"
  by (rule scan_None) (simp add: lit_ci_conv not_contains_no_start_ci)

lemma scan_lit_None:
  "\<not> contains f s \<Longrightarrow> scan (lit f k) s = None"
  by (rule scan_None) (simp add: lit_conv not_contains_no_start)

lemma scan_lit_ci_Some_D:
  assumes "scan (lit_ci h k) s = Some m"
  shows "contains (lower h) (lower s)"
proof (rule ccontr)
  assume "\<not> contains (lower h) (lower s)"
  then have "scan (lit_ci h k) s = None" by (rule scan_lit_ci_None)
  with assms show False by simp
qed

subsection \<open>Greedy runs\<close>

lemma star_greedy_total:
  "(\<forall>s. k s \<noteq> None) \<Longrightarrow> star_greedy P k s = k (dropWhile P s)"
proof (induction s)
  case Nil
  then show ?case by simp
next
  case (Cons c s)
  show ?case
  proof (cases "P c")
    case True
    from Cons.prems have "k (dropWhile P s) \<noteq> None" by blast
    then obtain m where "k (dropWhile P s) = Some m" by blast
    with Cons True show ?thesis by simp
  next
    case False
    then show ?thesis by simp
  qed
qed

lemma takeWhile_short:
  "xs \<noteq> [] \<Longrightarrow> \<not> P (last xs) \<Longrightarrow> length (takeWhile P (xs @ ys)) < length xs"
proof (induction xs)
  case Nil
  then show ?case by simp
next
  case (Cons x xs)
  then show ?case by (cases "xs = []") auto
qed

lemma dropWhile_append_stop:
  "\<not> P y \<Longrightarrow> dropWhile P (xs @ y # ys) = dropWhile P xs @ y # ys"
  by (induction xs) auto

lemma takeWhile_append_stop:
  "\<not> P y \<Longrightarrow> takeWhile P (xs @ y # ys) = takeWhile P xs"
  by (induction xs) auto

subsection \<open>The code block pattern at a fence\<close>

lemma code_block_at:
  assumes tag: "list_all is_alpha tag"
    and body: "\<not> contains ''\<newline>```'' (body @ ''\<newline>``'')"
  shows "opt_greedy (\<lambda>k. star_greedy is_alpha (lit ''\<newline>'' k))
           (any_lazy (\<lambda>g. lit ''\<newline>```'' (accept (Some g))) [])
           (tag @ ''\<newline>'' @ body @ ''\<newline>```'' @ rest)
         = Some (Some body, rest)"
proof -
  let ?k = "\<lambda>g. lit ''\<newline>```'' (accept (Some g))"
  have b: "\<not> contains ''\<newline>```'' (body @ butlast ''\<newline>```'')" using body by simp
  have fails: "\<forall>i<length body. ?k ([] @ take i body) (drop i body @ ''\<newline>```'' @ rest) = None"
  proof (intro allI impI)
    fix i assume i: "i < length body"
    have "\<not> starts_with ''\<newline>```'' (drop i (body @ ''\<newline>```'' @ rest))"
      using b _ _ i by (rule no_start_before) simp_all
    with i show "?k ([] @ take i body) (drop i body @ ''\<newline>```'' @ rest) = None"
      by (simp add: lit_conv)
  qed
  have hit: "?k ([] @ body) (''\<newline>```'' @ rest) = Some (Some body, rest)"
    by (simp add: accept_def)
  have lazy: "any_lazy ?k [] (body @ ''\<newline>```'' @ rest) = Some (Some body, rest)"
    using fails hit by (rule any_lazy_first)
  have "star_greedy is_alpha (lit ''\<newline>'' (any_lazy ?k []))
          (tag @ (''\<newline>'' @ body @ ''\<newline>```'' @ rest)) = Some (Some body, rest)"
  proof (rule star_greedy_run [OF tag])
    show "''\<newline>'' @ body @ ''\<newline>```'' @ rest = [] \<or> \<not> is_alpha (hd (''\<newline>'' @ body @ ''\<newline>```'' @ rest))"
      by (simp add: nl_not_alpha)
    show "lit ''\<newline>'' (any_lazy ?k []) (''\<newline>'' @ body @ ''\<newline>```'' @ rest) = Some (Some body, rest)"
      using lazy by simp
  qed
  then show ?thesis by (simp add: opt_greedy_def)
qed

subsection \<open>The error details pattern after its heading\<close>

lemma error_at:
  assumes nh: "next_heading nxt" and ns: "nxt = [] \<or> \<not> is_space (hd nxt)"
    and no: "\<forall>i<length E. \<not> next_heading (drop i (E @ nxt))"
  shows "star_greedy is_space
           (any_lazy (\<lambda>g. star_greedy is_space (look_ahead next_heading (accept (Some g)))) [])
           (E @ nxt)
         = Some (Some (strip E), nxt)"
proof -
  let ?k = "\<lambda>g. star_greedy is_space (look_ahead next_heading (accept (Some g)))"
  obtain a b where E: "E = a @ strip E @ b" and a: "list_all is_space a"
    and b: "list_all is_space b"
    and ends: "strip E = [] \<or> (\<not> is_space (hd (strip E)) \<and> \<not> is_space (last (strip E)))"
    and b0: "strip E = [] \<longrightarrow> b = []"
    using strip_decomp [of E] by blast
  let ?c = "strip E"
  have "length (a @ ?c @ b) = length a + length ?c + length b" by simp
  with E have lenE: "length E = length a + length ?c + length b" by metis
  have hit: "?k ([] @ ?c) (b @ nxt) = Some (Some ?c, nxt)"
    using b ns by (simp add: star_greedy_run look_ahead_def nh accept_def)
  have fails: "\<forall>i<length ?c. ?k ([] @ take i ?c) (drop i ?c @ b @ nxt) = None"
  proof (intro allI impI)
    fix i assume i: "i < length ?c"
    then have ne: "drop i ?c \<noteq> []" by simp
    from i ends have "\<not> is_space (last ?c)" by auto
    with i have "\<not> is_space (last (drop i ?c))" by simp
    with ne have short: "length (takeWhile is_space (drop i ?c @ b @ nxt)) < length (drop i ?c)"
      by (rule takeWhile_short)
    have "star_greedy is_space (look_ahead next_heading (accept (Some (take i ?c))))
            (drop i ?c @ b @ nxt) = None"
    proof (rule star_greedy_None, intro allI impI)
      fix j assume "j \<le> length (takeWhile is_space (drop i ?c @ b @ nxt))"
      with short have j: "i + j < length ?c" by simp
      then have pos: "length a + i + j < length E" using lenE by simp
      have "drop j (drop i ?c @ b @ nxt) = drop (length a + i + j) ((a @ ?c @ b) @ nxt)"
        using j by (simp add: add.commute)
      also have "\<dots> = drop (length a + i + j) (E @ nxt)" using E by simp
      finally have "\<not> next_heading (drop j (drop i ?c @ b @ nxt))" using no pos by simp
      then show "look_ahead next_heading (accept (Some (take i ?c))) (drop j (drop i ?c @ b @ nxt)) = None"
        by (simp add: look_ahead_def)
    qed
    then show "?k ([] @ take i ?c) (drop i ?c @ b @ nxt) = None" by simp
  qed
  have lazy: "any_lazy ?k [] (?c @ b @ nxt) = Some (Some ?c, nxt)"
    using fails hit by (rule any_lazy_first)
  have stop: "?c @ b @ nxt = [] \<or> \<not> is_space (hd (?c @ b @ nxt))"
  proof (cases "?c = []")
    case True
    with b0 ns show ?thesis by simp
  next
    case False
    with ends show ?thesis by simp
  qed
  have "star_greedy is_space (any_lazy ?k []) (a @ (?c @ b @ nxt)) = Some (Some ?c, nxt)"
    using a stop lazy by (rule star_greedy_run)
  moreover have "a @ (?c @ b @ nxt) = E @ nxt" using E by (metis append_assoc)
  ultimately show ?thesis by simp
qed

subsection \<open>The suggestions pattern after its heading\<close>

lemma suggestions_at:
  "star_greedy is_space (any_greedy (\<lambda>g. accept (Some g)) []) S
     = Some (Some (dropWhile is_space S), [])"
  by (simp add: star_greedy_total any_greedy_accept)

subsection \<open>Containment\<close>

lemma contains_append_left: "contains f s \<Longrightarrow> contains f (p @ s)"
  by (induction p) auto

lemma contains_dropWhile: "contains f (dropWhile P xs @ ys) \<Longrightarrow> contains f (xs @ ys)"
proof -
  assume "contains f (dropWhile P xs @ ys)"
  then have "contains f (takeWhile P xs @ (dropWhile P xs @ ys))" by (rule contains_append_left)
  then show ?thesis by (metis append_assoc takeWhile_dropWhile_id)
qed

lemma starts_with_drop: "starts_with (a @ b) s \<Longrightarrow> starts_with b (drop (length a) s)"
  by (induction a s rule: starts_with.induct) auto

lemma contains_tail: "contains (a @ b) s \<Longrightarrow> contains b s"
proof -
  assume "contains (a @ b) s"
  then obtain i where i: "i \<le> length s" "starts_with (a @ b) (drop i s)"
    unfolding contains_iff by blast
  then have "starts_with b (drop (length a) (drop i s))" by (intro starts_with_drop)
  then have sw: "starts_with b (drop (length a + i) s)" by (simp add: ac_simps)
  show ?thesis
  proof (cases "length a + i \<le> length s")
    case True
    with sw show ?thesis unfolding contains_iff by blast
  next
    case False
    then have "drop (length a + i) s = drop (length s) s" by simp
    with sw have "starts_with b (drop (length s) s)" by simp
    then show ?thesis unfolding contains_iff by blast
  qed
qed

lemma drop_to_suffix: "s = u @ v \<Longrightarrow> drop (length s - length v) s = v"
  by simp

subsection \<open>The headings in lower case\<close>

lemma lower_error_heading: "lower ''## Error Details'' = ''## error details''"
  by code_simp

lemma lower_code_heading: "lower ''## Corrected Code'' = ''## corrected code''"
  by code_simp

lemma lower_suggestions_heading: "lower ''## Suggestions'' = ''## suggestions''"
  by code_simp

subsection \<open>The extraction blocks on a located section\<close>

lemma group1_strip_Some: "group1_strip \<lparr>m_group1 = Some g, m_end = n\<rparr> = Inr (strip g)"
  by (simp add: group1_strip_def)

lemma extract_error_details_found:
  assumes H: "lower H = ''## error details''"
    and noH: "\<not> contains ''## error details'' (lower (pre @ butlast H))"
    and nh: "next_heading nxt" and ns: "nxt = [] \<or> \<not> is_space (hd nxt)"
    and noE: "\<forall>i<length E. \<not> next_heading (drop i (E @ nxt))"
  shows "extract_error_details (pre @ H @ E @ nxt) (secs, ok)
         = Inr (secs\<lparr>error_details := Some (strip E)\<rparr>, ok)"
proof -
  have H': "lower H = lower ''## Error Details''" using H by (simp add: lower_error_heading)
  have noH': "\<not> contains (lower ''## Error Details'') (lower (pre @ butlast H))"
    using noH by (simp add: lower_error_heading)
  have "scan error_re (pre @ H @ (E @ nxt)) = Some (Some (strip E), nxt)"
    unfolding error_re_def
    by (rule scan_lit_ci [OF H' _ noH']) (simp_all add: error_at [OF nh ns noE])
  then show ?thesis
    by (simp add: extract_error_details_def re_search_def group1_strip_Some strip_strip)
qed

lemma extract_error_details_missing:
  assumes "\<not> contains ''## error details'' (lower text)"
  shows "extract_error_details text (secs, ok)
         = Inr (if contains ''error details'' (lower text)
                then secs\<lparr>error_details := Some error_details_sentinel\<rparr> else secs, False)"
proof -
  have "scan error_re text = None"
    unfolding error_re_def using assms by (intro scan_lit_ci_None) (simp add: lower_error_heading)
  then show ?thesis by (simp add: extract_error_details_def re_search_def)
qed

lemma extract_corrected_code_found:
  assumes H: "lower H = ''## corrected code''"
    and noH: "\<not> contains ''## corrected code'' (lower (pre @ butlast H))"
    and noF: "\<not> contains ''```'' (mid @ ''``'')"
    and tag: "list_all is_alpha tag"
    and body: "\<not> contains ''\<newline>```'' (body @ ''\<newline>``'')"
  shows "extract_corrected_code
           (pre @ H @ mid @ ''```'' @ tag @ ''\<newline>'' @ body @ ''\<newline>```'' @ rest) (secs, ok)
         = Inr (secs\<lparr>corrected_code := Some (strip body)\<rparr>, ok)"
proof -
  let ?tail = "tag @ ''\<newline>'' @ body @ ''\<newline>```'' @ rest"
  let ?post = "mid @ ''```'' @ ?tail"
  let ?text = "pre @ H @ ?post"
  let ?rem = "dropWhile is_space mid @ ''```'' @ ?tail"
  have H': "lower H = lower ''## Corrected Code''" using H by (simp add: lower_code_heading)
  have noH': "\<not> contains (lower ''## Corrected Code'') (lower (pre @ butlast H))"
    using noH by (simp add: lower_code_heading)
  have rem: "dropWhile is_space ?post = ?rem"
    using dropWhile_append_stop [of is_space "CHR 0x60" mid] by (simp add: tick_not_space)
  have "scan corrected_code_heading_re ?text = Some (None, dropWhile is_space ?post)"
    unfolding corrected_code_heading_re_def
    by (rule scan_lit_ci [OF H' _ noH']) (simp_all add: star_greedy_accept)
  then have heading: "re_search corrected_code_heading_re ?text
      = Some \<lparr>m_group1 = None, m_end = length ?text - length ?rem\<rparr>"
    by (simp only: re_search_def rem option.case prod.case)
  have "?text = (pre @ H @ takeWhile is_space mid) @ ?rem"
    by (metis append_assoc takeWhile_dropWhile_id)
  then have slice: "drop (length ?text - length ?rem) ?text = ?rem" by (rule drop_to_suffix)
  have "\<not> contains ''```'' (dropWhile is_space mid @ ''``'')"
    using noF contains_dropWhile by blast
  then have noF': "\<not> contains ''```'' (dropWhile is_space mid @ butlast ''```'')" by simp
  have "scan code_block_re ?rem = Some (Some body, rest)"
    unfolding code_block_re_def
  proof (rule scan_lit)
    show "''```'' \<noteq> []" by simp
    show "\<not> contains ''```'' (dropWhile is_space mid @ butlast ''```'')" by (rule noF')
    show "opt_greedy (\<lambda>k. star_greedy is_alpha (lit ''\<newline>'' k))
            (any_lazy (\<lambda>g. lit ''\<newline>```'' (accept (Some g))) []) ?tail
          = Some (Some body, rest)"
      by (rule code_block_at [OF tag body])
  qed
  then have block: "re_search code_block_re ?rem
      = Some \<lparr>m_group1 = Some body, m_end = length ?rem - length rest\<rparr>"
    by (simp add: re_search_def)
  show ?thesis
    unfolding extract_corrected_code_def
    by (simp only: heading slice block group1_strip_Some prod.case option.case sum.case
        re_match.select_convs Let_def)
qed

lemma extract_suggestions_found:
  assumes H: "lower H = ''## suggestions''"
    and noH: "\<not> contains ''## suggestions'' (lower (A @ butlast H))"
  shows "extract_suggestions (A @ H @ S) (secs, ok)
         = Inr (secs\<lparr>suggestions :=
                  Some (if strip S = [] then no_suggestions_placeholder else strip S)\<rparr>, ok)"
proof -
  have H': "lower H = lower ''## Suggestions''" using H by (simp add: lower_suggestions_heading)
  have noH': "\<not> contains (lower ''## Suggestions'') (lower (A @ butlast H))"
    using noH by (simp add: lower_suggestions_heading)
  have "scan suggestions_re (A @ H @ S) = Some (Some (dropWhile is_space S), [])"
    unfolding suggestions_re_def
    by (rule scan_lit_ci [OF H' _ noH']) (simp_all add: suggestions_at)
  then show ?thesis
    by (simp add: extract_suggestions_def re_search_def group1_strip_Some strip_dropWhile)
qed

lemma extract_suggestions_missing:
  assumes "\<not> contains ''## suggestions'' (lower text)"
  shows "extract_suggestions text (secs, ok)
         = Inr (if contains ''suggestions'' (lower text)
                then secs\<lparr>suggestions := Some suggestions_sentinel\<rparr> else secs, ok)"
proof -
  have "scan suggestions_re text = None"
    unfolding suggestions_re_def using assms
    by (intro scan_lit_ci_None) (simp add: lower_suggestions_heading)
  then show ?thesis by (simp add: extract_suggestions_def re_search_def)
qed

subsection \<open>Group 1 takes part in every match\<close>

lemma accept_group: "accept (Some g) s = Some m \<Longrightarrow> fst m \<noteq> None"
  by (auto simp: accept_def)

lemma lit_ci_Some_D: "lit_ci p k s = Some m \<Longrightarrow> k (drop (length p) s) = Some m"
  by (simp add: lit_ci_conv split: if_splits)

lemma lit_Some_D: "lit p k s = Some m \<Longrightarrow> k (drop (length p) s) = Some m"
  by (simp add: lit_conv split: if_splits)

lemma error_re_group:
  assumes "error_re s = Some m"
  shows "fst m \<noteq> None"
proof -
  let ?k = "\<lambda>g. star_greedy is_space (look_ahead next_heading (accept (Some g)))"
  from assms have "lit_ci ''## Error Details'' (star_greedy is_space (any_lazy ?k [])) s = Some m"
    by (simp only: error_re_def)
  from lit_ci_Some_D [OF this] obtain s0 where
    "star_greedy is_space (any_lazy ?k []) s0 = Some m" by blast
  from star_greedy_Some_D [OF this] obtain s1 where "any_lazy ?k [] s1 = Some m" by blast
  from any_lazy_Some_D [OF this] obtain g s2 where
    "star_greedy is_space (look_ahead next_heading (accept (Some g))) s2 = Some m" by blast
  from star_greedy_Some_D [OF this] obtain s3 where
    "look_ahead next_heading (accept (Some g)) s3 = Some m" by blast
  then have "accept (Some g) s3 = Some m"
    by (simp add: look_ahead_def split: if_splits)
  then show ?thesis by (rule accept_group)
qed

lemma code_block_re_group:
  assumes "code_block_re s = Some m"
  shows "fst m \<noteq> None"
proof -
  let ?k = "\<lambda>g. lit ''\<newline>```'' (accept (Some g))"
  have lazy: "fst m \<noteq> None" if "any_lazy ?k [] s1 = Some m" for s1
  proof -
    from any_lazy_Some_D [OF that] obtain g s2 where
      "lit ''\<newline>```'' (accept (Some g)) s2 = Some m" by blast
    from lit_Some_D [OF this] show ?thesis by (rule accept_group)
  qed
  from assms have "lit ''```''
      (opt_greedy (\<lambda>k. star_greedy is_alpha (lit ''\<newline>'' k)) (any_lazy ?k [])) s = Some m"
    by (simp only: code_block_re_def)
  from lit_Some_D [OF this] obtain s0 where
    o: "opt_greedy (\<lambda>k. star_greedy is_alpha (lit ''\<newline>'' k)) (any_lazy ?k []) s0 = Some m"
    by blast
  show ?thesis
  proof (cases "star_greedy is_alpha (lit ''\<newline>'' (any_lazy ?k [])) s0")
    case None
    with o have "any_lazy ?k [] s0 = Some m" by (simp add: opt_greedy_def)
    then show ?thesis by (rule lazy)
  next
    case (Some a)
    with o have "star_greedy is_alpha (lit ''\<newline>'' (any_lazy ?k [])) s0 = Some m"
      by (simp add: opt_greedy_def)
    from star_greedy_Some_D [OF this] obtain s1 where
      "lit ''\<newline>'' (any_lazy ?k []) s1 = Some m" by blast
    from lit_Some_D [OF this] show ?thesis by (rule lazy)
  qed
qed

lemma suggestions_re_group:
  assumes "suggestions_re s = Some m"
  shows "fst m \<noteq> None"
proof -
  from assms have "lit_ci ''## Suggestions''
      (star_greedy is_space (any_greedy (\<lambda>g. accept (Some g)) [])) s = Some m"
    by (simp only: suggestions_re_def)
  from lit_ci_Some_D [OF this] show ?thesis by (auto simp: suggestions_at)
qed

lemma re_search_group:
  assumes re: "\<And>s m. re s = Some m \<Longrightarrow> fst m \<noteq> None"
    and m: "re_search re response_text = Some m"
  shows "\<exists>g. m_group1 m = Some g \<and> group1_strip m = Inr (strip g)"
proof -
  from m obtain g rest where sc: "scan re response_text = Some (g, rest)" and g: "m_group1 m = g"
    by (auto simp: re_search_def split: option.splits)
  from scan_Some_D [OF sc] obtain i where "re (drop i response_text) = Some (g, rest)" by blast
  then have "fst (g, rest) \<noteq> None" by (rule re)
  with g show ?thesis by (auto simp: group1_strip_def)
qed

subsection \<open>What each extraction block returns\<close>

lemma error_search_group:
  "re_search error_re response_text = Some m \<Longrightarrow> \<exists>g. group1_strip m = Inr (strip g)"
  using re_search_group [where re = error_re, of response_text m] error_re_group by metis

lemma code_block_search_group:
  "re_search code_block_re response_text = Some m \<Longrightarrow> \<exists>g. group1_strip m = Inr (strip g)"
  using re_search_group [where re = code_block_re, of response_text m] code_block_re_group by metis

lemma suggestions_search_group:
  "re_search suggestions_re response_text = Some m \<Longrightarrow> \<exists>g. group1_strip m = Inr (strip g)"
  using re_search_group [where re = suggestions_re, of response_text m] suggestions_re_group by metis

lemma extract_error_details_cases:
  "\<exists>v. extract_error_details response_text (secs, ok)
          = Inr (secs\<lparr>error_details := v\<rparr>, ok \<and> error_details_located response_text)
      \<and> (error_details_located response_text \<longrightarrow> v \<noteq> None)
      \<and> (\<not> error_details_located response_text \<longrightarrow>
            v = (if contains ''error details'' (lower response_text)
                 then Some error_details_sentinel else error_details secs))"
proof (cases "re_search error_re response_text")
  case None
  let ?v = "if contains ''error details'' (lower response_text)
            then Some error_details_sentinel else error_details secs"
  from None have "extract_error_details response_text (secs, ok)
      = Inr (secs\<lparr>error_details := ?v\<rparr>, ok \<and> error_details_located response_text)"
    by (simp add: extract_error_details_def error_details_located_def)
  moreover from None have "\<not> error_details_located response_text"
    by (simp add: error_details_located_def)
  ultimately show ?thesis by blast
next
  case (Some m)
  from error_search_group [OF this] obtain g where
    "group1_strip m = Inr (strip g)" by blast
  with Some have "extract_error_details response_text (secs, ok)
      = Inr (secs\<lparr>error_details := Some (strip g)\<rparr>, ok \<and> error_details_located response_text)"
    by (simp add: extract_error_details_def error_details_located_def)
  moreover from Some have "error_details_located response_text"
    by (simp add: error_details_located_def)
  ultimately show ?thesis by blast
qed

lemma extract_corrected_code_cases:
  "\<exists>v. extract_corrected_code response_text (secs, ok)
          = Inr (secs\<lparr>corrected_code := v\<rparr>, ok \<and> corrected_code_located response_text)
      \<and> (corrected_code_located response_text \<longrightarrow> v \<noteq> None)
      \<and> (\<not> corrected_code_located response_text \<longrightarrow>
            v = corrected_code secs \<or> v = Some no_code_heading_sentinel
              \<or> v = Some no_code_block_sentinel)"
proof (cases "re_search corrected_code_heading_re response_text")
  case None
  let ?v = "if contains ''corrected code'' (lower response_text)
            then Some no_code_heading_sentinel else corrected_code secs"
  from None have "extract_corrected_code response_text (secs, ok)
      = Inr (secs\<lparr>corrected_code := ?v\<rparr>, ok \<and> corrected_code_located response_text)"
    by (simp add: extract_corrected_code_def corrected_code_located_def)
  moreover from None have "\<not> corrected_code_located response_text"
    by (simp add: corrected_code_located_def)
  moreover have "?v = corrected_code secs \<or> ?v = Some no_code_heading_sentinel" by simp
  ultimately show ?thesis by blast
next
  case h: (Some hm)
  show ?thesis
  proof (cases "re_search code_block_re (drop (m_end hm) response_text)")
    case None
    let ?v = "if contains ''corrected code'' (lower response_text)
              then Some no_code_block_sentinel else corrected_code secs"
    from h None have "extract_corrected_code response_text (secs, ok)
        = Inr (secs\<lparr>corrected_code := ?v\<rparr>, ok \<and> corrected_code_located response_text)"
      by (simp add: extract_corrected_code_def corrected_code_located_def)
    moreover from h None have "\<not> corrected_code_located response_text"
      by (simp add: corrected_code_located_def)
    moreover have "?v = corrected_code secs \<or> ?v = Some no_code_block_sentinel" by simp
    ultimately show ?thesis by blast
  next
    case (Some m)
    then obtain g where "group1_strip m = Inr (strip g)"
      using re_search_group code_block_re_group by blast
    with h Some have "extract_corrected_code response_text (secs, ok)
        = Inr (secs\<lparr>corrected_code := Some (strip g)\<rparr>,
               ok \<and> corrected_code_located response_text)"
      by (simp add: extract_corrected_code_def corrected_code_located_def)
    moreover from h Some have "corrected_code_located response_text"
      by (simp add: corrected_code_located_def)
    ultimately show ?thesis by blast
  qed
qed

lemma extract_suggestions_cases:
  "\<exists>v. extract_suggestions response_text (secs, ok) = Inr (secs\<lparr>suggestions := v\<rparr>, ok)"
proof (cases "re_search suggestions_re response_text")
  case None
  let ?v = "if contains ''suggestions'' (lower response_text)
            then Some suggestions_sentinel else suggestions secs"
  from None have "extract_suggestions response_text (secs, ok)
      = Inr (secs\<lparr>suggestions := ?v\<rparr>, ok)"
    by (simp add: extract_suggestions_def)
  then show ?thesis by blast
next
  case (Some m)
  from suggestions_search_group [OF this] obtain g where
    "group1_strip m = Inr (strip g)" by blast
  with Some have "extract_suggestions response_text (secs, ok)
      = Inr (secs\<lparr>suggestions :=
               Some (if strip g = [] then no_suggestions_placeholder else strip g)\<rparr>, ok)"
    by (simp add: extract_suggestions_def)
  then show ?thesis by blast
qed

lemma final_checks_fst: "fst (final_checks response_text (secs, ok)) = secs"
  by (simp add: final_checks_def Let_def)

lemma final_checks_False: "final_checks response_text (secs, False) = (secs, False)"
  by (simp add: final_checks_def Let_def)

subsection \<open>The function as the sequence of its blocks\<close>

lemma parse_ai_response_steps:
  assumes "extract_error_details response_text (init_sections, True) = Inr st1"
    and "extract_corrected_code response_text st1 = Inr st2"
    and "extract_suggestions response_text st2 = Inr st3"
  shows "parse_ai_response response_text = Inr (final_checks response_text st3)"
  using assms by (simp add: parse_ai_response_def)

lemma final_checks_located:
  assumes e: "error_details_located response_text \<longrightarrow> error_details secs \<noteq> None"
    and c: "corrected_code_located response_text \<longrightarrow> corrected_code secs \<noteq> None"
  shows "final_checks response_text
           (secs, error_details_located response_text \<and> corrected_code_located response_text)
         = (secs, error_details_located response_text \<and> corrected_code_located response_text
                  \<and> \<not> (response_text \<noteq> [] \<and> \<not> truthy (error_details secs)
                        \<and> \<not> truthy (corrected_code secs) \<and> \<not> truthy (suggestions secs)))"
  using e c by (auto simp: final_checks_def Let_def)

lemma parse_ai_response_cases:
  "\<exists>v1 v2 v3.
     parse_ai_response response_text
       = Inr (\<lparr>error_details = v1, corrected_code = v2, suggestions = v3\<rparr>,
              error_details_located response_text \<and> corrected_code_located response_text
              \<and> \<not> (response_text \<noteq> [] \<and> \<not> truthy v1 \<and> \<not> truthy v2 \<and> \<not> truthy v3))
     \<and> (error_details_located response_text \<longrightarrow> v1 \<noteq> None)
     \<and> (\<not> error_details_located response_text \<longrightarrow>
           v1 = (if contains ''error details'' (lower response_text)
                 then Some error_details_sentinel else None))
     \<and> (corrected_code_located response_text \<longrightarrow> v2 \<noteq> None)
     \<and> (\<not> corrected_code_located response_text \<longrightarrow>
           v2 = None \<or> v2 = Some no_code_heading_sentinel \<or> v2 = Some no_code_block_sentinel)"
proof -
  let ?e = "error_details_located response_text"
  let ?c = "corrected_code_located response_text"
  obtain v1 where
    s1: "extract_error_details response_text (init_sections, True)
           = Inr (init_sections\<lparr>error_details := v1\<rparr>, True \<and> ?e)"
    and e1: "?e \<longrightarrow> v1 \<noteq> None"
    and e2: "\<not> ?e \<longrightarrow> v1 = (if contains ''error details'' (lower response_text)
                 then Some error_details_sentinel else error_details init_sections)"
    using extract_error_details_cases [of response_text init_sections True] by blast
  let ?s1 = "init_sections\<lparr>error_details := v1\<rparr>"
  obtain v2 where
    s2: "extract_corrected_code response_text (?s1, True \<and> ?e)
           = Inr (?s1\<lparr>corrected_code := v2\<rparr>, (True \<and> ?e) \<and> ?c)"
    and c1: "?c \<longrightarrow> v2 \<noteq> None"
    and c2: "\<not> ?c \<longrightarrow> v2 = corrected_code ?s1 \<or> v2 = Some no_code_heading_sentinel
                 \<or> v2 = Some no_code_block_sentinel"
    using extract_corrected_code_cases [of response_text ?s1 "True \<and> ?e"] by blast
  let ?s2 = "?s1\<lparr>corrected_code := v2\<rparr>"
  obtain v3 where
    s3: "extract_suggestions response_text (?s2, (True \<and> ?e) \<and> ?c)
           = Inr (?s2\<lparr>suggestions := v3\<rparr>, (True \<and> ?e) \<and> ?c)"
    using extract_suggestions_cases [of response_text ?s2 "(True \<and> ?e) \<and> ?c"] by blast
  let ?s3 = "\<lparr>error_details = v1, corrected_code = v2, suggestions = v3\<rparr>"
  have eq: "?s2\<lparr>suggestions := v3\<rparr> = ?s3" by (simp add: init_sections_def)
  have "parse_ai_response response_text
          = Inr (final_checks response_text (?s2\<lparr>suggestions := v3\<rparr>, (True \<and> ?e) \<and> ?c))"
    using s1 s2 s3 by (rule parse_ai_response_steps)
  then have "parse_ai_response response_text = Inr (final_checks response_text (?s3, ?e \<and> ?c))"
    by (simp only: eq simp_thms)
  moreover have "final_checks response_text (?s3, ?e \<and> ?c)
      = (?s3, ?e \<and> ?c \<and> \<not> (response_text \<noteq> [] \<and> \<not> truthy (error_details ?s3)
                        \<and> \<not> truthy (corrected_code ?s3) \<and> \<not> truthy (suggestions ?s3)))"
    by (rule final_checks_located) (simp_all add: e1 c1)
  ultimately have p: "parse_ai_response response_text
       = Inr (?s3, ?e \<and> ?c \<and> \<not> (response_text \<noteq> [] \<and> \<not> truthy v1 \<and> \<not> truthy v2 \<and> \<not> truthy v3))"
    by simp
  from e2 have e2': "\<not> ?e \<longrightarrow> v1 = (if contains ''error details'' (lower response_text)
                 then Some error_details_sentinel else None)"
    by (simp add: init_sections_def)
  from c2 have c2': "\<not> ?c \<longrightarrow> v2 = None \<or> v2 = Some no_code_heading_sentinel
                 \<or> v2 = Some no_code_block_sentinel"
    by (simp add: init_sections_def)
  from p e1 e2' c1 c2' show ?thesis by blast
qed

subsection \<open>Sections in context\<close>

lemma no_start_ci_inside:
  assumes no: "\<not> contains (lower h) (lower (P @ A @ butlast H))"
    and H: "lower H = lower h" and ne: "h \<noteq> []" and i: "i < length A"
  shows "\<not> starts_with_ci h (drop i (A @ H @ B))"
proof -
  have "\<not> contains (lower h) (lower (A @ butlast H))"
  proof
    assume "contains (lower h) (lower (A @ butlast H))"
    then have "contains (lower h) (lower P @ lower (A @ butlast H))"
      by (rule contains_append_left)
    with no show False by (simp add: lower_append)
  qed
  then show ?thesis using H ne i by (rule no_start_ci_before)
qed

lemma spaces_no_fence: "list_all is_space W \<Longrightarrow> \<not> contains ''```'' (W @ ''``'')"
  by (induction W) (auto simp: tick_not_space)

lemma error_section:
  assumes H1: "lower H1 = ''## error details''" and H2: "lower H2 = ''## corrected code''"
    and no1: "\<not> contains ''## error details'' (lower (pre @ butlast H1))"
    and no2: "\<not> contains ''## corrected code'' (lower (pre @ H1 @ E @ butlast H2))"
    and no3: "\<forall>i<length E. \<not> starts_with_ci ''## Suggestions'' (drop i (E @ H2 @ rest))"
  shows "extract_error_details (pre @ H1 @ E @ H2 @ rest) (secs, ok)
         = Inr (secs\<lparr>error_details := Some (strip E)\<rparr>, ok)"
proof -
  have H2': "lower H2 = lower ''## Corrected Code''" using H2 by (simp add: lower_code_heading)
  have sw: "starts_with_ci ''## Corrected Code'' (H2 @ rest)"
    using H2' by (rule starts_with_ci_variant)
  then have nh: "next_heading (H2 @ rest)" by (simp add: next_heading_def)
  have ns: "H2 @ rest = [] \<or> \<not> is_space (hd (H2 @ rest))"
    using starts_hash_not_space [of "''# Corrected Code''" "H2 @ rest"] sw by simp
  have no2': "\<not> contains (lower ''## Corrected Code'') (lower ((pre @ H1) @ E @ butlast H2))"
    using no2 by (simp add: lower_code_heading)
  have noE: "\<forall>i<length E. \<not> next_heading (drop i (E @ H2 @ rest))"
  proof (intro allI impI)
    fix i assume i: "i < length E"
    have "\<not> starts_with_ci ''## Corrected Code'' (drop i (E @ H2 @ rest))"
      using no2' H2' _ i by (rule no_start_ci_inside) simp
    moreover have "\<not> starts_with_ci ''## Suggestions'' (drop i (E @ H2 @ rest))"
      using no3 i by blast
    moreover have "drop i (E @ H2 @ rest) \<noteq> []" using i by simp
    ultimately show "\<not> next_heading (drop i (E @ H2 @ rest))"
      by (simp only: next_heading_def simp_thms not_False_eq_True)
  qed
  show ?thesis
    using H1 no1 nh ns noE by (rule extract_error_details_found)
qed

lemma parse_corrected_code:
  assumes "\<And>secs ok. extract_corrected_code response_text (secs, ok)
             = Inr (secs\<lparr>corrected_code := Some c\<rparr>, ok)"
  shows "corrected_code_located response_text
         \<and> (\<exists>secs ok. parse_ai_response response_text = Inr (secs, ok)
               \<and> corrected_code secs = Some c)"
proof -
  obtain v where v: "extract_corrected_code response_text (init_sections, True)
          = Inr (init_sections\<lparr>corrected_code := v\<rparr>, True \<and> corrected_code_located response_text)"
    using extract_corrected_code_cases [of response_text init_sections True] by blast
  with assms [of init_sections True] have loc: "corrected_code_located response_text" by simp
  obtain v1 ok1 where s1: "extract_error_details response_text (init_sections, True)
           = Inr (init_sections\<lparr>error_details := v1\<rparr>, ok1)"
    using extract_error_details_cases [of response_text init_sections True] by blast
  let ?s2 = "init_sections\<lparr>error_details := v1, corrected_code := Some c\<rparr>"
  have s2: "extract_corrected_code response_text (init_sections\<lparr>error_details := v1\<rparr>, ok1)
           = Inr (?s2, ok1)"
    by (rule assms)
  obtain v3 where s3: "extract_suggestions response_text (?s2, ok1)
           = Inr (?s2\<lparr>suggestions := v3\<rparr>, ok1)"
    using extract_suggestions_cases [of response_text ?s2 ok1] by blast
  have p: "parse_ai_response response_text
          = Inr (final_checks response_text (?s2\<lparr>suggestions := v3\<rparr>, ok1))"
    using s1 s2 s3 by (rule parse_ai_response_steps)
  obtain secs ok where f: "final_checks response_text (?s2\<lparr>suggestions := v3\<rparr>, ok1) = (secs, ok)"
    by (cases "final_checks response_text (?s2\<lparr>suggestions := v3\<rparr>, ok1)")
  have "fst (final_checks response_text (?s2\<lparr>suggestions := v3\<rparr>, ok1)) = ?s2\<lparr>suggestions := v3\<rparr>"
    by (rule final_checks_fst)
  with f have "corrected_code secs = Some c" by simp
  with p f loc show ?thesis by simp
qed

lemma final_checks_filled:
  "s \<noteq> [] \<Longrightarrow>
   final_checks response_text
     (\<lparr>error_details = Some e, corrected_code = Some c, suggestions = Some s\<rparr>, True)
   = (\<lparr>error_details = Some e, corrected_code = Some c, suggestions = Some s\<rparr>, True)"
  by (simp add: final_checks_def truthy_def)

lemma final_checks_no_suggestions:
  "e \<noteq> [] \<or> c \<noteq> [] \<Longrightarrow>
   final_checks response_text
     (\<lparr>error_details = Some e, corrected_code = Some c, suggestions = None\<rparr>, True)
   = (\<lparr>error_details = Some e, corrected_code = Some c, suggestions = None\<rparr>, True)"
  by (auto simp: final_checks_def truthy_def)

section \<open>Replies in the shape of the template\<close>

text \<open>
  What the function computes on replies of the expected shape. Throughout, a heading is
  given in any letter case and stands at its first occurrence in the text; a fenced block
  has a tag of ASCII letters (possibly none), then a line break, the interior \<open>body\<close>, and
  as closing fence the first fence line after the opening line.
\<close>

text \<open>The flag as the function computes it, closing check included.\<close>

lemma success_flag_computed:
  assumes "parse_ai_response response_text = Inr (secs, ok)"
  shows "ok \<longleftrightarrow>
           error_details_located response_text \<and> corrected_code_located response_text
           \<and> \<not> (response_text \<noteq> [] \<and> \<not> truthy (error_details secs)
                 \<and> \<not> truthy (corrected_code secs) \<and> \<not> truthy (suggestions secs))"
proof -
  obtain v1 v2 v3 where
    "parse_ai_response response_text
       = Inr (\<lparr>error_details = v1, corrected_code = v2, suggestions = v3\<rparr>,
              error_details_located response_text \<and> corrected_code_located response_text
              \<and> \<not> (response_text \<noteq> [] \<and> \<not> truthy v1 \<and> \<not> truthy v2 \<and> \<not> truthy v3))"
    using parse_ai_response_cases [of response_text] by blast
  with assms show ?thesis by auto
qed

text \<open>A block right after the Corrected Code heading.\<close>

lemma letter_tag_block_extracted:
  assumes H: "lower H = ''## corrected code''"
    and first: "\<not> contains ''## corrected code'' (lower (pre @ butlast H))"
    and ws: "list_all is_space W"
    and tag: "list_all is_alpha tag"
    and body: "\<not> contains ''\<newline>```'' (body @ ''\<newline>``'')"
  shows "\<exists>secs ok.
           parse_ai_response
             (pre @ H @ W @ ''```'' @ tag @ ''\<newline>'' @ body @ ''\<newline>```'' @ rest)
             = Inr (secs, ok)
           \<and> corrected_code secs = Some (strip body)"
proof -
  have "\<not> contains ''```'' (W @ ''``'')" using ws by (rule spaces_no_fence)
  with H first have "\<And>secs ok. extract_corrected_code
           (pre @ H @ W @ ''```'' @ tag @ ''\<newline>'' @ body @ ''\<newline>```'' @ rest) (secs, ok)
         = Inr (secs\<lparr>corrected_code := Some (strip body)\<rparr>, ok)"
    using tag body by (rule extract_corrected_code_found)
  then show ?thesis using parse_corrected_code by blast
qed

text \<open>A block after the heading, with another block before the heading.\<close>

lemma block_after_heading_extracted:
  assumes H: "lower H = ''## corrected code''"
    and first: "\<not> contains ''## corrected code''
                 (lower ((p0 @ ''```'' @ tag1 @ ''\<newline>'' @ body1 @ ''\<newline>```'' @ p1)
                         @ butlast H))"
    and mid: "\<not> contains ''```'' (mid @ ''``'')"
    and tag: "list_all is_alpha tag"
    and body: "\<not> contains ''\<newline>```'' (body @ ''\<newline>``'')"
  shows "\<exists>secs ok.
           parse_ai_response
             ((p0 @ ''```'' @ tag1 @ ''\<newline>'' @ body1 @ ''\<newline>```'' @ p1)
              @ H @ mid @ ''```'' @ tag @ ''\<newline>'' @ body @ ''\<newline>```'' @ rest)
             = Inr (secs, ok)
           \<and> corrected_code secs = Some (strip body)"
proof -
  from H first mid tag body have "\<And>secs ok. extract_corrected_code
           ((p0 @ ''```'' @ tag1 @ ''\<newline>'' @ body1 @ ''\<newline>```'' @ p1)
              @ H @ mid @ ''```'' @ tag @ ''\<newline>'' @ body @ ''\<newline>```'' @ rest) (secs, ok)
         = Inr (secs\<lparr>corrected_code := Some (strip body)\<rparr>, ok)"
    by (rule extract_corrected_code_found)
  then show ?thesis using parse_corrected_code by blast
qed

text \<open>A block that comes only after a later Suggestions heading.\<close>

lemma block_inside_suggestions_extracted:
  assumes shape: "response_text
                  = pre @ H2 @ (mid @ H3 @ q) @ ''```'' @ tag @ ''\<newline>'' @ body @ ''\<newline>```'' @ rest"
    and H2: "lower H2 = ''## corrected code''"
    and H3: "lower H3 = ''## suggestions''"
    and first: "\<not> contains ''## corrected code'' (lower (pre @ butlast H2))"
    and no_fence: "\<not> contains ''```'' ((mid @ H3 @ q) @ ''``'')"
    and tag: "list_all is_alpha tag"
    and body: "\<not> contains ''\<newline>```'' (body @ ''\<newline>``'')"
  shows "(\<forall>secs ok. extract_corrected_code response_text (secs, ok)
                     = Inr (secs\<lparr>corrected_code := Some (strip body)\<rparr>, ok))
         \<and> corrected_code_located response_text
         \<and> (\<exists>secs ok. parse_ai_response response_text = Inr (secs, ok)
               \<and> corrected_code secs = Some (strip body))"
proof -
  have step: "\<And>secs ok. extract_corrected_code response_text (secs, ok)
         = Inr (secs\<lparr>corrected_code := Some (strip body)\<rparr>, ok)"
    unfolding shape using H2 first no_fence tag body by (rule extract_corrected_code_found)
  from parse_corrected_code [of response_text "strip body", OF step] step
  show ?thesis by blast
qed

text \<open>All three sections, the suggestions text not blank.\<close>

lemma three_sections_extracted:
  assumes shape: "response_text
      = pre @ H1 @ E @ H2 @ mid @ ''```'' @ tag @ ''\<newline>'' @ body @ ''\<newline>```'' @ R @ H3 @ S"
    and H1: "lower H1 = ''## error details''"
    and H2: "lower H2 = ''## corrected code''"
    and H3: "lower H3 = ''## suggestions''"
    and no1: "\<not> contains ''## error details'' (lower (pre @ butlast H1))"
    and no2: "\<not> contains ''## corrected code'' (lower (pre @ H1 @ E @ butlast H2))"
    and no3: "\<not> contains ''## suggestions''
               (lower (pre @ H1 @ E @ H2 @ mid @ ''```'' @ tag @ ''\<newline>'' @ body @ ''\<newline>```''
                       @ R @ butlast H3))"
    and mid: "\<not> contains ''```'' (mid @ ''``'')"
    and tag: "list_all is_alpha tag"
    and body: "\<not> contains ''\<newline>```'' (body @ ''\<newline>``'')"
    and S: "strip S \<noteq> []"
  shows "parse_ai_response response_text
         = Inr (\<lparr>error_details = Some (strip E), corrected_code = Some (strip body),
                 suggestions = Some (strip S)\<rparr>, True)"
proof -
  let ?X = "mid @ ''```'' @ tag @ ''\<newline>'' @ body @ ''\<newline>```'' @ R"
  have H3': "lower H3 = lower ''## Suggestions''" using H3 by (simp add: lower_suggestions_heading)
  have no3': "\<not> contains (lower ''## Suggestions'') (lower ((pre @ H1) @ (E @ H2 @ ?X) @ butlast H3))"
    using no3 by (simp add: lower_suggestions_heading)
  have inside: "\<forall>i<length E. \<not> starts_with_ci ''## Suggestions'' (drop i (E @ H2 @ ?X @ H3 @ S))"
  proof (intro allI impI)
    fix i assume "i < length E"
    then have i: "i < length (E @ H2 @ ?X)" by simp
    have "\<not> starts_with_ci ''## Suggestions'' (drop i ((E @ H2 @ ?X) @ H3 @ S))"
      using no3' H3' _ i by (rule no_start_ci_inside) simp
    then show "\<not> starts_with_ci ''## Suggestions'' (drop i (E @ H2 @ ?X @ H3 @ S))"
      by simp
  qed
  have t1: "response_text = pre @ H1 @ E @ H2 @ (?X @ H3 @ S)"
    using shape by (simp only: append_assoc)
  have s1: "extract_error_details response_text (init_sections, True)
      = Inr (init_sections\<lparr>error_details := Some (strip E)\<rparr>, True)"
    unfolding t1 using H1 H2 no1 no2 inside by (rule error_section)
  let ?s1 = "init_sections\<lparr>error_details := Some (strip E)\<rparr>"
  have t2: "response_text
      = (pre @ H1 @ E) @ H2 @ mid @ ''```'' @ tag @ ''\<newline>'' @ body @ ''\<newline>```'' @ (R @ H3 @ S)"
    using shape by (simp only: append_assoc)
  have no2': "\<not> contains ''## corrected code'' (lower ((pre @ H1 @ E) @ butlast H2))"
    using no2 by simp
  have s2: "extract_corrected_code response_text (?s1, True)
      = Inr (?s1\<lparr>corrected_code := Some (strip body)\<rparr>, True)"
    unfolding t2 using H2 no2' mid tag body by (rule extract_corrected_code_found)
  let ?s2 = "?s1\<lparr>corrected_code := Some (strip body)\<rparr>"
  have t3: "response_text = (pre @ H1 @ E @ H2 @ ?X) @ H3 @ S"
    using shape by (simp only: append_assoc)
  have no3'': "\<not> contains ''## suggestions'' (lower ((pre @ H1 @ E @ H2 @ ?X) @ butlast H3))"
    using no3 by simp
  have s3: "extract_suggestions response_text (?s2, True)
      = Inr (?s2\<lparr>suggestions :=
               Some (if strip S = [] then no_suggestions_placeholder else strip S)\<rparr>, True)"
    unfolding t3 using H3 no3'' by (rule extract_suggestions_found)
  have "parse_ai_response response_text
      = Inr (final_checks response_text (?s2\<lparr>suggestions :=
               Some (if strip S = [] then no_suggestions_placeholder else strip S)\<rparr>, True))"
    using s1 s2 s3 by (rule parse_ai_response_steps)
  moreover have "?s2\<lparr>suggestions :=
               Some (if strip S = [] then no_suggestions_placeholder else strip S)\<rparr>
      = \<lparr>error_details = Some (strip E), corrected_code = Some (strip body),
          suggestions = Some (strip S)\<rparr>"
    using S by (simp add: init_sections_def)
  moreover have "final_checks response_text
       (\<lparr>error_details = Some (strip E), corrected_code = Some (strip body),
          suggestions = Some (strip S)\<rparr>, True)
      = (\<lparr>error_details = Some (strip E), corrected_code = Some (strip body),
           suggestions = Some (strip S)\<rparr>, True)"
    using S by (rule final_checks_filled)
  ultimately show ?thesis by simp
qed

text \<open>The two mandatory sections, not both blank, and no word "suggestions".\<close>

lemma two_sections_extracted:
  assumes shape: "response_text
      = pre @ H1 @ E @ H2 @ mid @ ''```'' @ tag @ ''\<newline>'' @ body @ ''\<newline>```'' @ rest"
    and H1: "lower H1 = ''## error details''"
    and H2: "lower H2 = ''## corrected code''"
    and no1: "\<not> contains ''## error details'' (lower (pre @ butlast H1))"
    and no2: "\<not> contains ''## corrected code'' (lower (pre @ H1 @ E @ butlast H2))"
    and mid: "\<not> contains ''```'' (mid @ ''``'')"
    and tag: "list_all is_alpha tag"
    and body: "\<not> contains ''\<newline>```'' (body @ ''\<newline>``'')"
    and no_word: "\<not> contains ''suggestions'' (lower response_text)"
    and content: "strip E \<noteq> [] \<or> strip body \<noteq> []"
  shows "parse_ai_response response_text
         = Inr (\<lparr>error_details = Some (strip E), corrected_code = Some (strip body),
                 suggestions = None\<rparr>, True)"
proof -
  let ?X = "mid @ ''```'' @ tag @ ''\<newline>'' @ body @ ''\<newline>```'' @ rest"
  have no_heading: "\<not> contains ''## suggestions'' (lower response_text)"
  proof
    assume "contains ''## suggestions'' (lower response_text)"
    then have "contains (''## '' @ ''suggestions'') (lower response_text)" by simp
    then have "contains ''suggestions'' (lower response_text)" by (rule contains_tail)
    with no_word show False by contradiction
  qed
  then have nh: "\<not> contains (lower ''## Suggestions'') (lower response_text)"
    by (simp add: lower_suggestions_heading)
  have inside: "\<forall>i<length E. \<not> starts_with_ci ''## Suggestions'' (drop i (E @ H2 @ ?X))"
  proof (intro allI impI)
    fix i assume i: "i < length E"
    have t: "response_text = (pre @ H1) @ (E @ H2 @ ?X)" using shape by (simp only: append_assoc)
    have "length (pre @ H1) + i \<le> length response_text" using i by (simp add: t)
    with nh have "\<not> starts_with_ci ''## Suggestions'' (drop (length (pre @ H1) + i) response_text)"
      by (rule not_contains_no_start_ci)
    moreover have "drop (length (pre @ H1) + i) response_text = drop i (E @ H2 @ ?X)"
      by (subst t) (simp only: drop_append length_append, simp)
    ultimately show "\<not> starts_with_ci ''## Suggestions'' (drop i (E @ H2 @ ?X))" by simp
  qed
  have s1: "extract_error_details response_text (init_sections, True)
      = Inr (init_sections\<lparr>error_details := Some (strip E)\<rparr>, True)"
    unfolding shape using H1 H2 no1 no2 inside by (rule error_section)
  let ?s1 = "init_sections\<lparr>error_details := Some (strip E)\<rparr>"
  have t2: "response_text
      = (pre @ H1 @ E) @ H2 @ mid @ ''```'' @ tag @ ''\<newline>'' @ body @ ''\<newline>```'' @ rest"
    using shape by (simp only: append_assoc)
  have no2': "\<not> contains ''## corrected code'' (lower ((pre @ H1 @ E) @ butlast H2))"
    using no2 by simp
  have s2: "extract_corrected_code response_text (?s1, True)
      = Inr (?s1\<lparr>corrected_code := Some (strip body)\<rparr>, True)"
    unfolding t2 using H2 no2' mid tag body by (rule extract_corrected_code_found)
  let ?s2 = "?s1\<lparr>corrected_code := Some (strip body)\<rparr>"
  have s3: "extract_suggestions response_text (?s2, True) = Inr (?s2, True)"
    using extract_suggestions_missing [OF no_heading, of ?s2 True] no_word by simp
  have "parse_ai_response response_text = Inr (final_checks response_text (?s2, True))"
    using s1 s2 s3 by (rule parse_ai_response_steps)
  moreover have "?s2 = \<lparr>error_details = Some (strip E), corrected_code = Some (strip body),
          suggestions = None\<rparr>"
    by (simp add: init_sections_def)
  moreover have "final_checks response_text
       (\<lparr>error_details = Some (strip E), corrected_code = Some (strip body),
          suggestions = None\<rparr>, True)
      = (\<lparr>error_details = Some (strip E), corrected_code = Some (strip body),
           suggestions = None\<rparr>, True)"
    using content by (rule final_checks_no_suggestions)
  ultimately show ?thesis by simp
qed

section \<open>The claims\<close>

text \<open>
  C1: the success flag is meant to follow the two mandatory sections alone, whatever the
  suggestions field holds. The closing check of the function tests the truth value of
  all three fields, so an empty extracted text counts like a missing one. On the reply
  below both mandatory sections are located, with empty content, and the flag is false;
  with a Suggestions heading appended to the same reply the flag is true.
\<close>

theorem C1_flag_follows_suggestions:
  "error_details_located ''## Error Details\<newline>## Corrected Code\<newline>```\<newline>```''
   \<and> corrected_code_located ''## Error Details\<newline>## Corrected Code\<newline>```\<newline>```''
   \<and> parse_ai_response ''## Error Details\<newline>## Corrected Code\<newline>```\<newline>```''
       = Inr (\<lparr>error_details = Some [], corrected_code = Some [], suggestions = None\<rparr>, False)
   \<and> parse_ai_response ''## Error Details\<newline>## Corrected Code\<newline>```\<newline>```\<newline>## Suggestions''
       = Inr (\<lparr>error_details = Some [], corrected_code = Some [],
               suggestions = Some no_suggestions_placeholder\<rparr>, True)"
  by code_simp

text \<open>
  C2: a reply with the three headings, each followed by its content, is meant to parse
  into the three stripped texts with the flag true. The function does so on the reply of
  the specification. With the language tag \<open>python3\<close> in place of \<open>python\<close> the tag line
  stays in the extracted code: the tag pattern takes letters only.
\<close>

theorem C2_scenario_and_digit_tag:
  "parse_ai_response
     ''## Error Details\<newline>Name undefined\<newline>## Corrected Code\<newline>```python\<newline>print('ok')\<newline>```\<newline>## Suggestions\<newline>Add type hints.''
   = Inr (\<lparr>error_details = Some ''Name undefined'', corrected_code = Some ''print('ok')'',
           suggestions = Some ''Add type hints.''\<rparr>, True)
   \<and> parse_ai_response
     ''## Error Details\<newline>Name undefined\<newline>## Corrected Code\<newline>```python3\<newline>print('ok')\<newline>```\<newline>## Suggestions\<newline>Add type hints.''
   = Inr (\<lparr>error_details = Some ''Name undefined'',
           corrected_code = Some ''python3\<newline>print('ok')'',
           suggestions = Some ''Add type hints.''\<rparr>, True)"
  by code_simp

text \<open>
  C3: with one fenced block before the Corrected Code heading and one after it, the
  extracted code is meant to be the stripped interior of the later block. The function
  takes the later block, and with the tag \<open>py\<close> it returns its interior; with the tag
  \<open>python3\<close> on the later block the tag line stays in the extracted code.
\<close>

theorem C3_later_block_and_digit_tag:
  "parse_ai_response
     ''## Error Details\<newline>```py\<newline>old()\<newline>```\<newline>## Corrected Code\<newline>```py\<newline>new()\<newline>```''
   = Inr (\<lparr>error_details = Some ''```py\<newline>old()\<newline>```'', corrected_code = Some ''new()'',
           suggestions = None\<rparr>, True)
   \<and> parse_ai_response
     ''## Error Details\<newline>```py\<newline>old()\<newline>```\<newline>## Corrected Code\<newline>```python3\<newline>new()\<newline>```''
   = Inr (\<lparr>error_details = Some ''```py\<newline>old()\<newline>```'',
           corrected_code = Some ''python3\<newline>new()'', suggestions = None\<rparr>, True)"
  by code_simp

text \<open>
  C4: the extracted code is meant to hold neither the fence markers nor the language
  tag, whatever the tag is. The tag \<open>python3\<close> stays in the extracted code; and for the tag
  \<open>python\<close> on a block without interior lines the tag itself is returned as the code.
\<close>

theorem C4_tag_kept:
  "parse_ai_response ''## Corrected Code\<newline>```python3\<newline>x = 1\<newline>```''
     = Inr (\<lparr>error_details = None, corrected_code = Some ''python3\<newline>x = 1'',
             suggestions = None\<rparr>, False)
   \<and> contains ''python3'' ''python3\<newline>x = 1''
   \<and> parse_ai_response ''## Corrected Code\<newline>```python\<newline>```''
     = Inr (\<lparr>error_details = None, corrected_code = Some ''python'',
             suggestions = None\<rparr>, False)"
  by code_simp

text \<open>
  C5: on the empty string the function returns (it does not raise) with the three fields
  unset and the success flag false.
\<close>

theorem C5_empty_input:
  "parse_ai_response [] =
     Inr (\<lparr>error_details = None, corrected_code = None, suggestions = None\<rparr>, False)"
  by code_simp

text \<open>
  C6: when the phrase "error details" occurs in the lower-cased text but the heading
  "## Error Details" occurs nowhere (in any letter case), the field holds the diagnostic
  sentinel and the success flag is false.
\<close>

theorem C6_phrase_without_heading:
  assumes phrase: "contains ''error details'' (lower response_text)"
    and no_heading: "\<not> contains ''## error details'' (lower response_text)"
  shows "\<exists>secs. parse_ai_response response_text = Inr (secs, False)
           \<and> error_details secs = Some error_details_sentinel"
proof -
  have "scan error_re response_text = None"
    unfolding error_re_def using no_heading
    by (intro scan_lit_ci_None) (simp add: lower_error_heading)
  then have nl: "\<not> error_details_located response_text"
    by (simp add: error_details_located_def re_search_def)
  obtain v1 v2 v3 where
    p: "parse_ai_response response_text
       = Inr (\<lparr>error_details = v1, corrected_code = v2, suggestions = v3\<rparr>,
              error_details_located response_text \<and> corrected_code_located response_text
              \<and> \<not> (response_text \<noteq> [] \<and> \<not> truthy v1 \<and> \<not> truthy v2 \<and> \<not> truthy v3))"
    and v1: "\<not> error_details_located response_text \<longrightarrow>
           v1 = (if contains ''error details'' (lower response_text)
                 then Some error_details_sentinel else None)"
    using parse_ai_response_cases [of response_text] by blast
  from v1 nl phrase have "v1 = Some error_details_sentinel" by simp
  with p nl show ?thesis by simp
qed

theorem C6_phrase_without_heading_witness:
  "contains ''error details'' (lower ''The error details are missing'')
   \<and> \<not> contains ''## error details'' (lower ''The error details are missing'')
   \<and> (\<exists>secs. parse_ai_response ''The error details are missing'' = Inr (secs, False)
           \<and> error_details secs = Some error_details_sentinel)"
proof -
  have a: "contains ''error details'' (lower ''The error details are missing'')" by code_simp
  have b: "\<not> contains ''## error details'' (lower ''The error details are missing'')" by code_simp
  from C6_phrase_without_heading [OF a b] a b show ?thesis by blast
qed

text \<open>
  C7: a reply with both mandatory sections and no Suggestions section, nor the word
  "suggestions" anywhere, is meant to succeed with the suggestions field unset. On the
  reply below both mandatory sections are located, with blank content, and the closing
  check turns the flag to false because the suggestions field is unset; the same reply
  followed by a sentence with the word "suggestions" gets the diagnostic sentinel in that
  field and the flag true.
\<close>

theorem C7_blank_sections_without_suggestions:
  "error_details_located ''## Error Details\<newline>\<newline>## Corrected Code\<newline>```\<newline>\<newline>```''
   \<and> corrected_code_located ''## Error Details\<newline>\<newline>## Corrected Code\<newline>```\<newline>\<newline>```''
   \<and> \<not> contains ''suggestions'' (lower ''## Error Details\<newline>\<newline>## Corrected Code\<newline>```\<newline>\<newline>```'')
   \<and> parse_ai_response ''## Error Details\<newline>\<newline>## Corrected Code\<newline>```\<newline>\<newline>```''
       = Inr (\<lparr>error_details = Some [], corrected_code = Some [], suggestions = None\<rparr>, False)
   \<and> parse_ai_response ''## Error Details\<newline>\<newline>## Corrected Code\<newline>```\<newline>\<newline>```\<newline>No suggestions.''
       = Inr (\<lparr>error_details = Some [], corrected_code = Some [],
               suggestions = Some suggestions_sentinel\<rparr>, True)"
  by code_simp

text \<open>
  C8: for every text the function returns a dictionary and a flag, never an error. When
  a mandatory section is not located, its field is unset or a diagnostic sentinel and the
  flag is false.
\<close>

theorem C8_never_raises:
  "\<exists>secs ok. parse_ai_response response_text = Inr (secs, ok)
     \<and> (\<not> error_details_located response_text \<longrightarrow>
          \<not> ok \<and> (error_details secs = None
                  \<or> error_details secs = Some error_details_sentinel))
     \<and> (\<not> corrected_code_located response_text \<longrightarrow>
          \<not> ok \<and> (corrected_code secs = None
                  \<or> corrected_code secs = Some no_code_heading_sentinel
                  \<or> corrected_code secs = Some no_code_block_sentinel))"
proof -
  let ?e = "error_details_located response_text"
  let ?c = "corrected_code_located response_text"
  obtain v1 v2 v3 where
    p: "parse_ai_response response_text
       = Inr (\<lparr>error_details = v1, corrected_code = v2, suggestions = v3\<rparr>,
              ?e \<and> ?c \<and> \<not> (response_text \<noteq> [] \<and> \<not> truthy v1 \<and> \<not> truthy v2 \<and> \<not> truthy v3))"
    and v1: "\<not> ?e \<longrightarrow> v1 = (if contains ''error details'' (lower response_text)
                 then Some error_details_sentinel else None)"
    and v2: "\<not> ?c \<longrightarrow> v2 = None \<or> v2 = Some no_code_heading_sentinel
                 \<or> v2 = Some no_code_block_sentinel"
    using parse_ai_response_cases [of response_text] by blast
  from v1 have v1': "\<not> ?e \<longrightarrow> v1 = None \<or> v1 = Some error_details_sentinel" by simp
  show ?thesis
    by (intro exI conjI, rule p) (use v1' v2 in simp_all)
qed

theorem C8_never_raises_witness:
  "\<not> error_details_located ''Sorry, I cannot help with that.''
   \<and> \<not> corrected_code_located ''Sorry, I cannot help with that.''
   \<and> (\<exists>secs. parse_ai_response ''Sorry, I cannot help with that.'' = Inr (secs, False)
         \<and> (error_details secs = None \<or> error_details secs = Some error_details_sentinel)
         \<and> (corrected_code secs = None
              \<or> corrected_code secs = Some no_code_heading_sentinel
              \<or> corrected_code secs = Some no_code_block_sentinel))"
proof -
  have a: "\<not> error_details_located ''Sorry, I cannot help with that.''" by code_simp
  have b: "\<not> corrected_code_located ''Sorry, I cannot help with that.''" by code_simp
  from C8_never_raises [of "''Sorry, I cannot help with that.''"] a b show ?thesis by auto
qed

text \<open>
  C10: the search for the fenced block runs to the end of the text, so a block that
  comes only inside the Suggestions section is taken as the corrected code, and its
  stripped interior is meant to be stored. The function takes that block and marks no
  failure for the section; with the tag \<open>py\<close> it stores the interior, with the tag \<open>c++\<close>
  the tag line stays in the stored code.
\<close>

theorem C10_later_block_and_symbol_tag:
  "corrected_code_located ''## Corrected Code\<newline>see below\<newline>## Suggestions\<newline>try:\<newline>```py\<newline>fix()\<newline>```''
   \<and> parse_ai_response ''## Corrected Code\<newline>see below\<newline>## Suggestions\<newline>try:\<newline>```py\<newline>fix()\<newline>```''
       = Inr (\<lparr>error_details = None, corrected_code = Some ''fix()'',
               suggestions = Some ''try:\<newline>```py\<newline>fix()\<newline>```''\<rparr>, False)
   \<and> corrected_code_located ''## Corrected Code\<newline>see below\<newline>## Suggestions\<newline>try:\<newline>```c++\<newline>fix()\<newline>```''
   \<and> parse_ai_response ''## Corrected Code\<newline>see below\<newline>## Suggestions\<newline>try:\<newline>```c++\<newline>fix()\<newline>```''
       = Inr (\<lparr>error_details = None, corrected_code = Some ''c++\<newline>fix()'',
               suggestions = Some ''try:\<newline>```c++\<newline>fix()\<newline>```''\<rparr>, False)"
  by code_simp

end
